theory Spec2Isabelle
  imports Main "HOL-Library.AList"
begin

section \<open>The user repository of the event-coordination application\<close>

text \<open>
  The module embedded here is the user data-access layer: eleven asynchronous functions
  (\<open>addUser\<close>, \<open>addBasicUser\<close>, \<open>updateUser\<close>, \<open>multiUpdateUser\<close>, \<open>deleteUser\<close>,
  \<open>getUser\<close>, \<open>hasUser\<close>, \<open>getCreatedEvents\<close>, \<open>findMatchingUsers\<close>, ...) that wrap the
  query builder of an object-document mapper. Each function is a \<open>try\<close>/\<open>catch\<close> around
  one or two store round trips.

  The embedding has three layers.
  \<^item> Values and outcomes: what a JavaScript expression evaluates to, and whether a
    promise (or a synchronous call) ends in a value or in an error.
  \<^item> The store: the \<open>User\<close> and \<open>Event\<close> collections with the operations the module
    calls on them (\<open>findOne\<close>, \<open>populate\<close>, \<open>save\<close>, \<open>deleteOne\<close>, \<open>find\<close>).
  \<^item> The module's functions, translated statement by statement.
\<close>

subsection \<open>Values and outcomes\<close>

type_synonym oid = nat

text \<open>
  The values a caller passes as a field value: a string, or a list of references to
  events. (Numbers, \<open>null\<close> and nested objects are not part of the model.)
\<close>

datatype jsval = VStr string | VRefs "oid list"

datatype error =
    TypeError
  | ValidationError
  | DuplicateKey
  | DocumentNotFound
  | StoreUnreachable
  | InvalidRegex

text \<open>
  An outcome is how a promise settles, or how a synchronous expression ends:
  \<open>Fulfilled v\<close> is a value, \<open>Rejected e\<close> a rejection (a thrown error). The functions
  of the module are \<open>async\<close>, so each returns an outcome; JavaScript's \<open>null\<close> result is
  \<open>None\<close> inside it.
\<close>

datatype 'a outcome = Fulfilled 'a | Rejected error

subsection \<open>The schemas\<close>

text \<open>
  Modelled from the spec: the \<open>User\<close> schema (\<open>models/user\<close>), which the module requires
  and which is not among the sources. The spec gives the required fields \<open>firstname\<close>,
  \<open>lastname\<close>, \<open>username\<close> (unique) and \<open>email\<close>, and the relationship field
  \<open>participatingIn\<close>, an ordered collection of references to events. A string field is
  \<open>None\<close> while it has not been set.
\<close>

record user =
  user_id :: oid
  firstname :: "string option"
  lastname :: "string option"
  username :: "string option"
  email :: "string option"
  participatingIn :: "oid list"

text \<open>
  Modelled from the spec: the \<open>Event\<close> schema (\<open>models/event\<close>), of which the module
  uses the back-reference \<open>creator\<close> and the field \<open>participants\<close>.
\<close>

record event =
  event_id :: oid
  creator :: oid
  participants :: "oid list"

text \<open>
  A joined event as \<open>populate\<close> delivers it. With the projection \<open>["-participants"]\<close>
  the field \<open>participants\<close> is stripped (\<open>None\<close>).
\<close>

record event_view =
  view_id :: oid
  view_creator :: oid
  view_participants :: "oid list option"

text \<open>
  A document is the in-memory object a query or a constructor returns: the values of the
  schema paths, whether it has been inserted yet, the joined events when
  \<open>participatingIn\<close> has been populated, the properties assigned to the object that are
  no schema paths (they are never persisted), and the paths whose last assignment could
  not be cast to the path's type.
\<close>

record document =
  doc_user :: user
  isNew :: bool
  populated :: "event_view list option"
  props :: "(string \<times> jsval) list"
  castErrors :: "string list"

text \<open>
  The store: both collections in insertion order, whether the store can be reached, the
  next fresh identifier, and the number of calls of \<open>save\<close> made so far.
\<close>

record store =
  users :: "user list"
  events :: "event list"
  reachable :: bool
  next_id :: oid
  save_calls :: nat

subsection \<open>Assignment to a document\<close>

definition string_paths :: "string list" where
  "string_paths = [''firstname'', ''lastname'', ''username'', ''email'']"

definition put_string :: "string \<Rightarrow> string \<Rightarrow> user \<Rightarrow> user" where
  "put_string path s u =
     (if path = ''firstname'' then u\<lparr>firstname := Some s\<rparr>
      else if path = ''lastname'' then u\<lparr>lastname := Some s\<rparr>
      else if path = ''username'' then u\<lparr>username := Some s\<rparr>
      else if path = ''email'' then u\<lparr>email := Some s\<rparr>
      else u)"

text \<open>
  Setting a schema path casts the value to the path's type. A value that cannot be cast
  (a list for a string path, a string for the reference list) leaves the path as it was
  and marks it invalid; a value that can be cast is stored and clears the mark. The
  model has no string form of an identifier, so it takes no string for a reference; the
  properties below give the reference list a list only.
\<close>

definition set_path :: "document \<Rightarrow> string \<Rightarrow> jsval \<Rightarrow> document" where
  "set_path d path v =
     (if path \<in> set string_paths then
        (case v of
           VStr s \<Rightarrow> d\<lparr>doc_user := put_string path s (doc_user d),
                        castErrors := removeAll path (castErrors d)\<rparr>
         | VRefs ids \<Rightarrow> d\<lparr>castErrors := path # removeAll path (castErrors d)\<rparr>)
      else
        (case v of
           VRefs ids \<Rightarrow> d\<lparr>doc_user := (doc_user d)\<lparr>participatingIn := ids\<rparr>,
                          populated := None,
                          castErrors := removeAll path (castErrors d)\<rparr>
         | VStr s \<Rightarrow> d\<lparr>castErrors := path # removeAll path (castErrors d)\<rparr>))"

definition is_path :: "string \<Rightarrow> bool" where
  "is_path field = (field \<in> set string_paths \<or> field = ''participatingIn'')"

text \<open>
  \<open>target[field] = value\<close> on a document: a schema path goes through its setter, any
  other name becomes (or overwrites) an own property of the object. Of the members a
  document object has besides its declared paths, the model knows the method \<open>save\<close>
  only (see \<open>call_save\<close>). The names \<open>_id\<close>, \<open>__v\<close>, \<open>id\<close> and \<open>isNew\<close>, which on the
  object are the identifier's path, the version counter, an accessor and the object's own
  state, are not told apart from fresh names: no property below assigns one of them.
\<close>

definition assign :: "document \<Rightarrow> string \<Rightarrow> jsval \<Rightarrow> document" where
  "assign d field v =
     (if is_path field then set_path d field v
      else d\<lparr>props := AList.update field v (props d)\<rparr>)"

text \<open>
  The same statement when the target may be \<open>null\<close>: assigning a property of \<open>null\<close>
  throws a \<open>TypeError\<close>.
\<close>

definition set_prop :: "document option \<Rightarrow> string \<Rightarrow> jsval \<Rightarrow> document outcome" where
  "set_prop target field v =
     (case target of
        None \<Rightarrow> Rejected TypeError
      | Some d \<Rightarrow> Fulfilled (assign d field v))"

text \<open>Reading \<open>doc[field]\<close>; the reference list is read as stored, not as joined.\<close>

definition read_prop :: "document \<Rightarrow> string \<Rightarrow> jsval option" where
  "read_prop d field =
     (if field = ''firstname'' then map_option VStr (firstname (doc_user d))
      else if field = ''lastname'' then map_option VStr (lastname (doc_user d))
      else if field = ''username'' then map_option VStr (username (doc_user d))
      else if field = ''email'' then map_option VStr (email (doc_user d))
      else if field = ''participatingIn'' then Some (VRefs (participatingIn (doc_user d)))
      else map_of (props d) field)"

subsection \<open>The store's operations\<close>

text \<open>\<open>User.findOne({username: uname})\<close>: the first stored user with that username.\<close>

definition findOne :: "store \<Rightarrow> string \<Rightarrow> user option outcome" where
  "findOne st uname =
     (if reachable st then Fulfilled (find (\<lambda>u. username u = Some uname) (users st))
      else Rejected StoreUnreachable)"

definition lookup_event :: "store \<Rightarrow> oid \<Rightarrow> event option" where
  "lookup_event st i = find (\<lambda>e. event_id e = i) (events st)"

definition view :: "bool \<Rightarrow> event \<Rightarrow> event_view" where
  "view strip e =
     \<lparr>view_id = event_id e, view_creator = creator e,
      view_participants = (if strip then None else Some (participants e))\<rparr>"

text \<open>
  \<open>.populate("participatingIn", ...)\<close>: each reference is replaced by the event it
  names; a reference to no stored event is dropped.
\<close>

definition populate :: "store \<Rightarrow> bool \<Rightarrow> user \<Rightarrow> document" where
  "populate st strip u =
     \<lparr>doc_user = u, isNew = False,
      populated = Some (map (view strip) (List.map_filter (lookup_event st) (participatingIn u))),
      props = [], castErrors = []\<rparr>"

text \<open>\<open>User.findOne({username: uname}).populate("participatingIn", ...).exec()\<close>\<close>

definition findOne_populate :: "store \<Rightarrow> bool \<Rightarrow> string \<Rightarrow> document option outcome" where
  "findOne_populate st strip uname =
     (case findOne st uname of
        Rejected e \<Rightarrow> Rejected e
      | Fulfilled r \<Rightarrow> Fulfilled (map_option (populate st strip) r))"

text \<open>
  The constructor \<open>User({...userObj})\<close>: a fresh identifier, then every key of the
  object that is a declared path is set; other keys are dropped (strict schema). A
  supplied \<open>_id\<close> is dropped with them: the objects constructed below supply none.
\<close>

definition blank_user :: "oid \<Rightarrow> user" where
  "blank_user i =
     \<lparr>user_id = i, firstname = None, lastname = None, username = None, email = None,
      participatingIn = []\<rparr>"

definition construct :: "document \<Rightarrow> string \<times> jsval \<Rightarrow> document" where
  "construct d kv = (if is_path (fst kv) then set_path d (fst kv) (snd kv) else d)"

definition new_User :: "store \<Rightarrow> (string \<times> jsval) list \<Rightarrow> document \<times> store" where
  "new_User st obj =
     (foldl construct
        \<lparr>doc_user = blank_user (next_id st), isNew = True, populated = None,
         props = [], castErrors = []\<rparr> obj,
      st\<lparr>next_id := Suc (next_id st)\<rparr>)"

text \<open>A required string is present and not empty.\<close>

definition required :: "string option \<Rightarrow> bool" where
  "required x = (case x of None \<Rightarrow> False | Some s \<Rightarrow> s \<noteq> [])"

definition valid_user :: "user \<Rightarrow> bool" where
  "valid_user u =
     (required (firstname u) \<and> required (lastname u) \<and> required (username u)
      \<and> required (email u))"

text \<open>The unique index on \<open>username\<close>: another stored user already has the name.\<close>

definition username_taken :: "store \<Rightarrow> user \<Rightarrow> bool" where
  "username_taken st u =
     list_ex (\<lambda>x. username x = username u \<and> user_id x \<noteq> user_id u) (users st)"

definition replace_user :: "user \<Rightarrow> user \<Rightarrow> user" where
  "replace_user u x = (if user_id x = user_id u then u else x)"

text \<open>
  \<open>doc.save()\<close>: validation first (it needs no round trip), then the write: an insert
  for a new document, an update of the stored document with the same identifier
  otherwise. Both indexes are unique, the one on the identifier and the one on
  \<open>username\<close>. Every call is counted, whatever its outcome.
\<close>

definition save :: "store \<Rightarrow> document \<Rightarrow> document outcome \<times> store" where
  "save st d =
     (let st1 = st\<lparr>save_calls := Suc (save_calls st)\<rparr>; u = doc_user d in
      if castErrors d \<noteq> [] then (Rejected ValidationError, st1)
      else if valid_user u = False then (Rejected ValidationError, st1)
      else if reachable st = False then (Rejected StoreUnreachable, st1)
      else if username_taken st u then (Rejected DuplicateKey, st1)
      else if isNew d then
        (if list_ex (\<lambda>x. user_id x = user_id u) (users st) then (Rejected DuplicateKey, st1)
         else (Fulfilled (d\<lparr>isNew := False\<rparr>), st1\<lparr>users := users st @ [u]\<rparr>))
      else if list_ex (\<lambda>x. user_id x = user_id u) (users st) then
        (Fulfilled d, st1\<lparr>users := map (replace_user u) (users st)\<rparr>)
      else (Rejected DocumentNotFound, st1))"

text \<open>
  The method call \<open>target.save()\<close> as the module writes it. On \<open>null\<close> it throws. On a
  document whose own property \<open>save\<close> has been assigned, the property shadows the method
  and the call throws as well, since no value of the model is a function.
\<close>

definition call_save :: "store \<Rightarrow> document option \<Rightarrow> document outcome \<times> store" where
  "call_save st target =
     (case target of
        None \<Rightarrow> (Rejected TypeError, st)
      | Some d \<Rightarrow>
          (case map_of (props d) ''save'' of
             Some v \<Rightarrow> (Rejected TypeError, st)
           | None \<Rightarrow> save st d))"

fun remove_first :: "('a \<Rightarrow> bool) \<Rightarrow> 'a list \<Rightarrow> 'a list" where
  "remove_first P [] = []"
| "remove_first P (x # xs) = (if P x then xs else x # remove_first P xs)"

text \<open>\<open>User.deleteOne({username: uname}).exec()\<close>: removes the first match, if any.\<close>

definition deleteOne :: "store \<Rightarrow> string \<Rightarrow> unit outcome \<times> store" where
  "deleteOne st uname =
     (if reachable st then
        (Fulfilled (), st\<lparr>users := remove_first (\<lambda>u. username u = Some uname) (users st)\<rparr>)
      else (Rejected StoreUnreachable, st))"

text \<open>\<open>Event.find({creator: i}).exec()\<close>\<close>

definition find_events :: "store \<Rightarrow> oid \<Rightarrow> event list outcome" where
  "find_events st i =
     (if reachable st then Fulfilled (filter (\<lambda>e. creator e = i) (events st))
      else Rejected StoreUnreachable)"

subsection \<open>The pattern language of the search\<close>

text \<open>
  \<open>findMatchingUsers\<close> hands its argument to the store as \<open>$regex\<close> with the option
  \<open>"i"\<close>. The store's regular-expression engine is no part of the module, so the
  function takes it as a parameter: an engine maps a pattern and its options to a
  predicate on strings, or to \<open>None\<close> when it rejects the pattern.

  \<open>regex_lite\<close> is an engine for the patterns built from literal characters, the
  wildcard \<open>.\<close>, grouping, alternation, the quantifiers \<open>*\<close>, \<open>+\<close>, \<open>?\<close> and a
  backslash before a character that is no letter or digit. It answers \<open>None\<close> for a
  malformed pattern (an unbalanced parenthesis, a quantifier with nothing to repeat, a
  trailing backslash) and also for syntax it does not cover (character classes, counted
  repetition, anchors, escapes by letter or digit, stacked quantifiers, group
  modifiers). The properties stated for every engine do not depend on it.
\<close>

type_synonym engine = "string \<Rightarrow> string \<Rightarrow> (string \<Rightarrow> bool) option"

datatype rx = Nul | Emp | Lit char | Dot | Cat rx rx | Alt rx rx | Rep rx

definition lower :: "char \<Rightarrow> char" where
  "lower c =
     (case map_of (zip ''ABCDEFGHIJKLMNOPQRSTUVWXYZ'' ''abcdefghijklmnopqrstuvwxyz'') c of
        Some l \<Rightarrow> l
      | None \<Rightarrow> c)"

fun nullable :: "rx \<Rightarrow> bool" where
  "nullable Nul = False"
| "nullable Emp = True"
| "nullable (Lit a) = False"
| "nullable Dot = False"
| "nullable (Cat r s) = (nullable r \<and> nullable s)"
| "nullable (Alt r s) = (nullable r \<or> nullable s)"
| "nullable (Rep r) = True"

text \<open>
  The derivative of a pattern by one character; \<open>ci\<close> is the option \<open>"i"\<close>. The
  wildcard matches every character but the line feed.
\<close>

fun deriv :: "bool \<Rightarrow> char \<Rightarrow> rx \<Rightarrow> rx" where
  "deriv ci c Nul = Nul"
| "deriv ci c Emp = Nul"
| "deriv ci c (Lit a) =
     (if (if ci then lower a = lower c else a = c) then Emp else Nul)"
| "deriv ci c Dot = (if c = CHR 0x0A then Nul else Emp)"
| "deriv ci c (Cat r s) =
     (if nullable r then Alt (Cat (deriv ci c r) s) (deriv ci c s)
      else Cat (deriv ci c r) s)"
| "deriv ci c (Alt r s) = Alt (deriv ci c r) (deriv ci c s)"
| "deriv ci c (Rep r) = Cat (deriv ci c r) (Rep r)"

text \<open>Some prefix of the string matches the pattern.\<close>

fun prefix_match :: "bool \<Rightarrow> rx \<Rightarrow> string \<Rightarrow> bool" where
  "prefix_match ci r [] = nullable r"
| "prefix_match ci r (c # cs) = (nullable r \<or> prefix_match ci (deriv ci c r) cs)"

text \<open>Some substring of the string matches the pattern: the search is not anchored.\<close>

fun search :: "bool \<Rightarrow> rx \<Rightarrow> string \<Rightarrow> bool" where
  "search ci r [] = nullable r"
| "search ci r (c # cs) = (prefix_match ci r (c # cs) \<or> search ci r cs)"

text \<open>
  The parser keeps a stack of open groups; a group is the alternatives closed so far and
  the atoms of the current alternative, last atom first.
\<close>

type_synonym frame = "rx list \<times> rx list"

definition seq_rx :: "rx list \<Rightarrow> rx" where
  "seq_rx atoms = foldl (\<lambda>acc a. Cat a acc) Emp atoms"

definition close_frame :: "frame \<Rightarrow> rx" where
  "close_frame f = foldr Alt (fst f) (seq_rx (snd f))"

definition alphanumeric :: string where
  "alphanumeric =
     ''abcdefghijklmnopqrstuvwxyz'' @ ''ABCDEFGHIJKLMNOPQRSTUVWXYZ'' @ ''0123456789''"

definition quantify :: "char \<Rightarrow> rx \<Rightarrow> rx" where
  "quantify q a =
     (if q = CHR ''*'' then Rep a
      else if q = CHR ''+'' then Cat a (Rep a)
      else Alt a Emp)"

definition push_atom :: "rx \<Rightarrow> frame list \<Rightarrow> frame list" where
  "push_atom a stack =
     (case stack of
        [] \<Rightarrow> []
      | f # rest \<Rightarrow> (fst f, a # snd f) # rest)"

fun parse_rx :: "frame list \<Rightarrow> string \<Rightarrow> rx option" where
  "parse_rx stack [] =
     (case stack of
        [f] \<Rightarrow> Some (close_frame f)
      | _ \<Rightarrow> None)"
| "parse_rx stack (c # cs) =
     (if c = CHR ''('' then parse_rx (([], []) # stack) cs
      else if c = CHR '')'' then
        (case stack of
           f # g # rest \<Rightarrow> parse_rx (push_atom (close_frame f) (g # rest)) cs
         | _ \<Rightarrow> None)
      else if c = CHR ''|'' then
        (case stack of
           f # rest \<Rightarrow> parse_rx ((fst f @ [seq_rx (snd f)], []) # rest) cs
         | [] \<Rightarrow> None)
      else if c \<in> set ''*+?'' then
        (case stack of
           (alts, a # atoms) # rest \<Rightarrow>
             (case cs of
                [] \<Rightarrow> parse_rx ((alts, quantify c a # atoms) # rest) cs
              | q # cs' \<Rightarrow>
                  if q \<in> set ''*+?'' then None
                  else parse_rx ((alts, quantify c a # atoms) # rest) cs)
         | _ \<Rightarrow> None)
      else if c = CHR 0x5C then
        (case cs of
           [] \<Rightarrow> None
         | e # cs' \<Rightarrow>
             if e \<in> set alphanumeric then None
             else parse_rx (push_atom (Lit e) stack) cs')
      else if c \<in> set ''[]{}^$'' then None
      else if c = CHR ''.'' then parse_rx (push_atom Dot stack) cs
      else parse_rx (push_atom (Lit c) stack) cs)"

definition regex_lite :: engine where
  "regex_lite pattern options =
     (case parse_rx [([], [])] pattern of
        None \<Rightarrow> None
      | Some r \<Rightarrow> Some (search (CHR ''i'' \<in> set options) r))"

text \<open>
  \<open>User.find({username: {$regex: searchString, $options: "i"}}).limit(10)
  .populate("participatingIn", ["-participants"]).exec()\<close>: the store rejects the query
  when its engine rejects the pattern.
\<close>

definition name_matches :: "(string \<Rightarrow> bool) \<Rightarrow> user \<Rightarrow> bool" where
  "name_matches m u = (case username u of None \<Rightarrow> False | Some n \<Rightarrow> m n)"

definition find_regex :: "engine \<Rightarrow> store \<Rightarrow> string \<Rightarrow> document list outcome" where
  "find_regex rx st searchString =
     (if reachable st then
        (case rx searchString ''i'' of
           None \<Rightarrow> Rejected InvalidRegex
         | Some m \<Rightarrow>
             Fulfilled (map (populate st True) (take 10 (filter (name_matches m) (users st)))))
      else Rejected StoreUnreachable)"

subsection \<open>The functions of the module\<close>

text \<open>
  \<open>addUser\<close>: the promise of \<open>save\<close> is returned from inside the \<open>try\<close> without being
  awaited, so the \<open>catch\<close> never sees its rejection: the function's promise settles as
  the promise of \<open>save\<close> does.
\<close>

definition addUser :: "store \<Rightarrow> (string \<times> jsval) list \<Rightarrow> document option outcome \<times> store" where
  "addUser st userObj =
     (let (newUser, st1) = new_User st userObj in
      case save st1 newUser of
        (Fulfilled d, st2) \<Rightarrow> (Fulfilled (Some d), st2)
      | (Rejected e, st2) \<Rightarrow> (Rejected e, st2))"

text \<open>\<open>addBasicUser\<close>: here the promise is awaited, and a rejection is caught.\<close>

definition addBasicUser ::
  "store \<Rightarrow> string \<Rightarrow> string \<Rightarrow> string \<Rightarrow> string \<Rightarrow> document option outcome \<times> store" where
  "addBasicUser st fname lname uname mail =
     (let (newUser, st1) =
        new_User st [(''firstname'', VStr fname), (''lastname'', VStr lname),
                     (''username'', VStr uname), (''email'', VStr mail)] in
      case save st1 newUser of
        (Fulfilled d, st2) \<Rightarrow> (Fulfilled (Some d), st2)
      | (Rejected e, st2) \<Rightarrow> (Fulfilled None, st2))"

definition updateUser ::
  "store \<Rightarrow> string \<Rightarrow> string \<Rightarrow> jsval \<Rightarrow> document option outcome \<times> store" where
  "updateUser st uname field v =
     (case findOne_populate st False uname of
        Rejected e \<Rightarrow> (Fulfilled None, st)
      | Fulfilled userToUpdate \<Rightarrow>
          (case set_prop userToUpdate field v of
             Rejected e \<Rightarrow> (Fulfilled None, st)
           | Fulfilled d \<Rightarrow>
               (case call_save st (Some d) of
                  (Fulfilled d', st') \<Rightarrow> (Fulfilled (Some d'), st')
                | (Rejected e, st') \<Rightarrow> (Fulfilled None, st'))))"

text \<open>The loop \<open>for (const element of updates) userToUpdate[element.field] = element.value\<close>.\<close>

fun assign_all :: "document option \<Rightarrow> (string \<times> jsval) list \<Rightarrow> document option outcome" where
  "assign_all target [] = Fulfilled target"
| "assign_all target (element # rest) =
     (case set_prop target (fst element) (snd element) of
        Rejected e \<Rightarrow> Rejected e
      | Fulfilled d \<Rightarrow> assign_all (Some d) rest)"

text \<open>What the loop computes when the target is a document: a left fold of \<open>assign\<close>.\<close>

definition apply_updates :: "document \<Rightarrow> (string \<times> jsval) list \<Rightarrow> document" where
  "apply_updates d updates = foldl (\<lambda>acc element. assign acc (fst element) (snd element)) d updates"

definition multiUpdateUser ::
  "store \<Rightarrow> string \<Rightarrow> (string \<times> jsval) list \<Rightarrow> document option outcome \<times> store" where
  "multiUpdateUser st uname updates =
     (case findOne_populate st False uname of
        Rejected e \<Rightarrow> (Fulfilled None, st)
      | Fulfilled userToUpdate \<Rightarrow>
          (case assign_all userToUpdate updates of
             Rejected e \<Rightarrow> (Fulfilled None, st)
           | Fulfilled target \<Rightarrow>
               (case call_save st target of
                  (Fulfilled d', st') \<Rightarrow> (Fulfilled (Some d'), st')
                | (Rejected e, st') \<Rightarrow> (Fulfilled None, st'))))"

definition deleteUser :: "store \<Rightarrow> string \<Rightarrow> bool outcome \<times> store" where
  "deleteUser st uname =
     (case deleteOne st uname of
        (Fulfilled r, st') \<Rightarrow> (Fulfilled True, st')
      | (Rejected e, st') \<Rightarrow> (Fulfilled False, st'))"

definition getUser :: "store \<Rightarrow> string \<Rightarrow> document option outcome" where
  "getUser st uname =
     (case findOne_populate st True uname of
        Fulfilled desiredUser \<Rightarrow> Fulfilled desiredUser
      | Rejected e \<Rightarrow> Fulfilled None)"

text \<open>\<open>hasUser\<close> awaits \<open>getUser\<close> outside any \<open>try\<close>: a rejection would pass through.\<close>

definition hasUser :: "store \<Rightarrow> string \<Rightarrow> bool outcome" where
  "hasUser st uname =
     (case getUser st uname of
        Fulfilled r \<Rightarrow> Fulfilled (r \<noteq> None)
      | Rejected e \<Rightarrow> Rejected e)"

text \<open>
  \<open>getCreatedEvents\<close> makes two round trips with nothing that holds the store still in
  between. The first argument is the store as the first query sees it, the second the
  store as the second query sees it; a call that nothing interferes with has both equal.
  Reading \<open>user._id\<close> of \<open>null\<close> throws inside the \<open>try\<close>.
\<close>

definition getCreatedEvents :: "store \<Rightarrow> store \<Rightarrow> string \<Rightarrow> event list option outcome" where
  "getCreatedEvents st st' uname =
     (case getUser st uname of
        Rejected e \<Rightarrow> Fulfilled None
      | Fulfilled None \<Rightarrow> Fulfilled None
      | Fulfilled (Some u) \<Rightarrow>
          (case find_events st' (user_id (doc_user u)) of
             Fulfilled es \<Rightarrow> Fulfilled (Some es)
           | Rejected e \<Rightarrow> Fulfilled None))"

definition findMatchingUsers :: "engine \<Rightarrow> store \<Rightarrow> string \<Rightarrow> document list option outcome" where
  "findMatchingUsers rx st searchString =
     (case find_regex rx st searchString of
        Fulfilled desiredUsers \<Rightarrow> Fulfilled (Some desiredUsers)
      | Rejected e \<Rightarrow> Fulfilled None)"

subsection \<open>Well-formed stores\<close>

text \<open>
  What the schema's indexes and validators maintain: no two stored users share a
  username or an identifier, every stored user passed validation, and every identifier
  in use is older than the next fresh one.
\<close>

definition unique_usernames :: "store \<Rightarrow> bool" where
  "unique_usernames st = distinct (map username (users st))"

definition wf_store :: "store \<Rightarrow> bool" where
  "wf_store st =
     (unique_usernames st \<and> distinct (map user_id (users st))
      \<and> list_all valid_user (users st)
      \<and> list_all (\<lambda>u. user_id u < next_id st) (users st))"

text \<open>
  An update of a declared path with a value of the path's type: a string for
  \<open>firstname\<close>, \<open>lastname\<close>, \<open>username\<close> or \<open>email\<close>, a list of references for
  \<open>participatingIn\<close>.
\<close>

definition typed_update :: "string \<times> jsval \<Rightarrow> bool" where
  "typed_update element =
     (case snd element of
        VStr s \<Rightarrow> fst element \<in> set string_paths
      | VRefs ids \<Rightarrow> fst element = ''participatingIn'')"

text \<open>
  An update that validation accepts whatever else the document holds, and that leaves
  the lookup key as it is: a non-empty string for \<open>firstname\<close>, \<open>lastname\<close> or \<open>email\<close>,
  the user's own name for \<open>username\<close>, a reference list for \<open>participatingIn\<close>.
\<close>

definition keeps_key :: "string \<Rightarrow> string \<Rightarrow> jsval \<Rightarrow> bool" where
  "keeps_key uname field v =
     (case v of
        VStr s \<Rightarrow>
          s \<noteq> [] \<and> (field \<in> set [''firstname'', ''lastname'', ''email'']
                    \<or> (field = ''username'' \<and> s = uname))
      | VRefs ids \<Rightarrow> field = ''participatingIn'')"

subsection \<open>Example stores\<close>

definition alice :: user where
  "alice =
     \<lparr>user_id = 1, firstname = Some ''Alice'', lastname = Some ''Liddell'',
      username = Some ''alice'', email = Some ''alice@x.com'', participatingIn = [10]\<rparr>"

definition bob :: user where
  "bob =
     \<lparr>user_id = 2, firstname = Some ''Bob'', lastname = Some ''Builder'',
      username = Some ''bob'', email = Some ''bob@x.com'', participatingIn = []\<rparr>"

definition party :: event where
  "party = \<lparr>event_id = 10, creator = 2, participants = [1]\<rparr>"

text \<open>Two users; \<open>bob\<close> created the one event, \<open>alice\<close> takes part in it.\<close>

definition demo :: store where
  "demo =
     \<lparr>users = [alice, bob], events = [party], reachable = True, next_id = 20,
      save_calls = 0\<rparr>"

definition person :: "oid \<Rightarrow> string \<Rightarrow> user" where
  "person i n =
     \<lparr>user_id = i, firstname = Some ''F'', lastname = Some ''L'', username = Some n,
      email = Some ''m@x.com'', participatingIn = []\<rparr>"

definition directory :: store where
  "directory =
     \<lparr>users = [person 1 ''abc'', person 2 ''bob'', person 3 ''ac'', person 4 ''axc'',
               person 5 ''bobby'', person 6 ''carol'', person 7 ''Bob123''],
      events = [], reachable = True, next_id = 8, save_calls = 0\<rparr>"

text \<open>Twelve users, \<open>ba\<close> to \<open>bl\<close>: more matches than one search returns.\<close>

definition crowd :: store where
  "crowd =
     \<lparr>users = map (\<lambda>c. person (of_char c) [CHR ''b'', c]) ''abcdefghijkl'',
      events = [], reachable = True, next_id = 200, save_calls = 0\<rparr>"

text \<open>The definitions a concrete call is evaluated with.\<close>

lemmas store_defs =
  findOne_def findOne_populate_def populate_def lookup_event_def view_def
  new_User_def construct_def blank_user_def is_path_def string_paths_def set_path_def
  put_string_def assign_def set_prop_def save_def call_save_def valid_user_def
  required_def username_taken_def replace_user_def deleteOne_def find_events_def
  find_regex_def name_matches_def List.map_filter_def

lemmas example_defs = demo_def alice_def bob_def party_def directory_def person_def

lemmas regex_defs =
  regex_lite_def seq_rx_def close_frame_def push_atom_def quantify_def alphanumeric_def lower_def

section \<open>Properties\<close>

subsection \<open>Failure of \<open>addUser\<close>\<close>

text \<open>
  C1. The claim: for every user object, \<open>addUser\<close> never returns a rejected promise; on
  a constraint violation or a connectivity error it returns \<open>null\<close>. The code returns the
  promise of \<open>save\<close> unawaited, so its rejection is the function's own. Creating a
  second \<open>alice\<close> in \<open>demo\<close> ends in a rejection with the duplicate-key error, and so
  does any creation while the store cannot be reached; \<open>addBasicUser\<close>, which awaits the
  promise, returns \<open>null\<close> on the same input.
\<close>

theorem addUser_rejects_on_failure:
  "addUser demo [(''firstname'', VStr ''Al''), (''lastname'', VStr ''Ice''),
                 (''username'', VStr ''alice''), (''email'', VStr ''al@x.com'')]
     = (Rejected DuplicateKey, demo\<lparr>next_id := 21, save_calls := 1\<rparr>)
   \<and> addBasicUser demo ''Al'' ''Ice'' ''alice'' ''al@x.com''
     = (Fulfilled None, demo\<lparr>next_id := 21, save_calls := 1\<rparr>)
   \<and> addUser (demo\<lparr>reachable := False\<rparr>)
        [(''firstname'', VStr ''Ca''), (''lastname'', VStr ''Rol''),
         (''username'', VStr ''carol''), (''email'', VStr ''c@x.com'')]
     = (Rejected StoreUnreachable, demo\<lparr>reachable := False, next_id := 21, save_calls := 1\<rparr>)"
  by (simp add: addUser_def addBasicUser_def store_defs example_defs Let_def)

subsection \<open>Fields outside the schema\<close>

text \<open>
  C3. The claim: \<open>updateUser\<close> returns \<open>null\<close> whenever the named field is no schema
  field. The code assigns the property and saves: for the existing user \<open>alice\<close> and the
  field \<open>nickname\<close> it returns the document, carrying the new property, after one call
  of \<open>save\<close>.
\<close>

theorem updateUser_unknown_field_succeeds:
  "updateUser demo ''alice'' ''nickname'' (VStr ''Al'')
     = (Fulfilled (Some ((populate demo False alice)\<lparr>props := [(''nickname'', VStr ''Al'')]\<rparr>)),
        demo\<lparr>save_calls := 1\<rparr>)"
  by (simp add: updateUser_def store_defs example_defs Let_def)

subsection \<open>\<open>hasUser\<close> and \<open>getUser\<close>\<close>

text \<open>
  C8. For every store and username, \<open>hasUser\<close> answers \<open>true\<close> exactly when \<open>getUser\<close>
  on that username does not answer \<open>null\<close>; it never rejects.
\<close>

theorem hasUser_iff_getUser:
  "hasUser st uname = Fulfilled (getUser st uname \<noteq> Fulfilled None)"
  by (simp add: hasUser_def getUser_def split: outcome.splits)

subsection \<open>Patterns the engine rejects\<close>

text \<open>
  C9. Whenever the store's engine rejects the search string as a pattern,
  \<open>findMatchingUsers\<close> returns \<open>null\<close>: neither a rejection nor an empty list.
\<close>

theorem findMatchingUsers_invalid_pattern:
  "rx searchString ''i'' = None \<Longrightarrow> findMatchingUsers rx st searchString = Fulfilled None"
  by (simp add: findMatchingUsers_def find_regex_def)

theorem findMatchingUsers_invalid_pattern_witness:
  "regex_lite ''('' ''i'' = None \<and> findMatchingUsers regex_lite demo ''('' = Fulfilled None"
proof -
  have h: "regex_lite ''('' ''i'' = None" by (simp add: regex_defs)
  show ?thesis
    using h findMatchingUsers_invalid_pattern [of regex_lite "''(''" demo] by simp
qed

subsection \<open>Deleting twice\<close>

lemma find_remove_first:
  "distinct (map f xs) \<Longrightarrow> find (\<lambda>u. f u = k) (remove_first (\<lambda>u. f u = k) xs) = None"
proof (induction xs)
  case Nil
  then show ?case by simp
next
  case (Cons x xs)
  show ?case
  proof (cases "f x = k")
    case True
    with Cons.prems have "k \<notin> f ` set xs" by auto
    then have "find (\<lambda>u. f u = k) xs = None" by (auto simp: find_None_iff)
    with True show ?thesis by simp
  next
    case False
    with Cons show ?thesis by simp
  qed
qed

lemma remove_first_absent: "find P xs = None \<Longrightarrow> remove_first P xs = xs"
  by (induction xs) (auto split: if_splits)

text \<open>
  C5. On a reachable store whose usernames are unique, \<open>deleteUser\<close> called twice in
  succession reports \<open>true\<close> both times, whether or not a user of that name was stored;
  the second call changes nothing, and \<open>getUser\<close> on the name then answers \<open>null\<close>.
\<close>

theorem deleteUser_idempotent:
  assumes "reachable st" and "unique_usernames st"
  shows "fst (deleteUser st uname) = Fulfilled True
       \<and> fst (deleteUser (snd (deleteUser st uname)) uname) = Fulfilled True
       \<and> snd (deleteUser (snd (deleteUser st uname)) uname) = snd (deleteUser st uname)
       \<and> getUser (snd (deleteUser (snd (deleteUser st uname)) uname)) uname = Fulfilled None"
proof -
  let ?P = "\<lambda>u. username u = Some uname"
  let ?st1 = "st\<lparr>users := remove_first ?P (users st)\<rparr>"
  have first: "deleteUser st uname = (Fulfilled True, ?st1)"
    using assms(1) by (simp add: deleteUser_def deleteOne_def)
  have gone: "find ?P (users ?st1) = None"
    using assms(2) find_remove_first [of username "users st" "Some uname"]
    by (simp add: unique_usernames_def)
  then have same: "remove_first ?P (users ?st1) = users ?st1"
    by (rule remove_first_absent)
  have second: "deleteUser ?st1 uname = (Fulfilled True, ?st1)"
    using assms(1) same by (simp add: deleteUser_def deleteOne_def)
  have lookup: "getUser ?st1 uname = Fulfilled None"
    using assms(1) gone by (simp add: getUser_def findOne_populate_def findOne_def)
  show ?thesis using first second lookup by simp
qed

theorem deleteUser_idempotent_witness:
  "reachable demo \<and> unique_usernames demo
   \<and> fst (deleteUser demo ''alice'') = Fulfilled True
   \<and> fst (deleteUser (snd (deleteUser demo ''alice'')) ''alice'') = Fulfilled True
   \<and> getUser (snd (deleteUser (snd (deleteUser demo ''alice'')) ''alice'')) ''alice'' = Fulfilled None
   \<and> users (snd (deleteUser demo ''alice'')) = [bob]
   \<and> fst (deleteUser demo ''nobody'') = Fulfilled True
   \<and> users (snd (deleteUser demo ''nobody'')) = [alice, bob]"
proof -
  have r: "reachable demo" by (simp add: demo_def)
  have u: "unique_usernames demo" by (simp add: unique_usernames_def example_defs)
  have a: "users (snd (deleteUser demo ''alice'')) = [bob]"
    by (simp add: deleteUser_def deleteOne_def example_defs)
  have n: "users (snd (deleteUser demo ''nobody'')) = [alice, bob]"
    by (simp add: deleteUser_def deleteOne_def example_defs)
  show ?thesis
    using r u a n deleteUser_idempotent [OF r u, of "''alice''"]
      deleteUser_idempotent [OF r u, of "''nobody''"] by blast
qed

subsection \<open>Events created by a user\<close>

text \<open>
  C2, as amended. When the first query finds the user and the store is reachable at
  the second query, \<open>getCreatedEvents\<close> returns the events that the store then holds
  with the user's identifier as creator, whether or not the user is still stored: the
  empty collection when there is no such event, never \<open>null\<close>. When the first query
  finds no user, it returns \<open>null\<close>.
\<close>

theorem getCreatedEvents_result:
  "(findOne st uname = Fulfilled (Some u) \<and> reachable st' \<longrightarrow>
      getCreatedEvents st st' uname
        = Fulfilled (Some (filter (\<lambda>e. creator e = user_id u) (events st'))))
   \<and> (findOne st uname = Fulfilled (Some u) \<and> reachable st'
        \<and> list_all (\<lambda>e. creator e \<noteq> user_id u) (events st') \<longrightarrow>
      getCreatedEvents st st' uname = Fulfilled (Some []))
   \<and> (findOne st uname = Fulfilled None \<longrightarrow> getCreatedEvents st st' uname = Fulfilled None)"
proof -
  have found: "getCreatedEvents st st' uname
        = Fulfilled (Some (filter (\<lambda>e. creator e = user_id u) (events st')))"
    if "findOne st uname = Fulfilled (Some u)" and "reachable st'"
    using that
    by (simp add: getCreatedEvents_def getUser_def findOne_populate_def populate_def
        find_events_def)
  have none: "filter (\<lambda>e. creator e = user_id u) (events st') = []"
    if "list_all (\<lambda>e. creator e \<noteq> user_id u) (events st')"
    using that by (simp add: filter_empty_conv list_all_iff)
  have absent: "getCreatedEvents st st' uname = Fulfilled None"
    if "findOne st uname = Fulfilled None"
    using that by (simp add: getCreatedEvents_def getUser_def findOne_populate_def)
  show ?thesis using found none absent by simp
qed

theorem getCreatedEvents_result_witness:
  "findOne demo ''alice'' = Fulfilled (Some alice) \<and> reachable demo
   \<and> list_all (\<lambda>e. creator e \<noteq> user_id alice) (events demo)
   \<and> getCreatedEvents demo demo ''alice'' = Fulfilled (Some [])
   \<and> getCreatedEvents demo (snd (deleteUser demo ''alice'')) ''alice'' = Fulfilled (Some [])
   \<and> findOne demo ''carol'' = Fulfilled None
   \<and> getCreatedEvents demo demo ''carol'' = Fulfilled None"
proof -
  have a: "findOne demo ''alice'' = Fulfilled (Some alice)"
    by (simp add: findOne_def example_defs)
  have r: "reachable demo" by (simp add: demo_def)
  have z: "list_all (\<lambda>e. creator e \<noteq> user_id alice) (events demo)"
    by (simp add: example_defs)
  have c: "findOne demo ''carol'' = Fulfilled None"
    by (simp add: findOne_def example_defs)
  have r': "reachable (snd (deleteUser demo ''alice''))"
    by (simp add: deleteUser_def deleteOne_def example_defs)
  have z': "list_all (\<lambda>e. creator e \<noteq> user_id alice) (events (snd (deleteUser demo ''alice'')))"
    by (simp add: deleteUser_def deleteOne_def example_defs)
  show ?thesis
    using a r z c r' z' getCreatedEvents_result [of demo "''alice''" alice demo]
      getCreatedEvents_result [of demo "''alice''" alice "snd (deleteUser demo ''alice'')"]
      getCreatedEvents_result [of demo "''carol''" alice demo] by blast
qed

text \<open>
  The claim as stated fails: \<open>bob\<close> is found by the first query and deleted before the
  second; the event he created is still stored, so the result is not empty. And when no
  user of that name exists from the start, the result is \<open>null\<close>.
\<close>

theorem getCreatedEvents_vanished_creator:
  "getUser demo ''bob'' \<noteq> Fulfilled None
   \<and> getUser (snd (deleteUser demo ''bob'')) ''bob'' = Fulfilled None
   \<and> getCreatedEvents demo (snd (deleteUser demo ''bob'')) ''bob'' = Fulfilled (Some [party])
   \<and> getCreatedEvents demo (snd (deleteUser demo ''bob'')) ''bob'' \<noteq> Fulfilled (Some [])
   \<and> getCreatedEvents (snd (deleteUser demo ''bob'')) (snd (deleteUser demo ''bob'')) ''bob''
       = Fulfilled None"
  by (simp add: getCreatedEvents_def getUser_def deleteUser_def store_defs example_defs)

subsection \<open>Searching by pattern\<close>

text \<open>
  C4. \<open>findMatchingUsers\<close> gives the search string unchanged to the store's engine as
  the pattern, with the option \<open>"i"\<close>, and returns the first ten at most of the stored
  users whose username the pattern matches. With \<open>regex_lite\<close> as the engine, \<open>a.c\<close>
  finds both \<open>abc\<close> and \<open>axc\<close> (and not \<open>ac\<close>): the dot is a wildcard; and \<open>bob\<close>
  finds \<open>bob\<close>, \<open>bobby\<close> and \<open>Bob123\<close>: the match ignores case and is not anchored.
\<close>

theorem findMatchingUsers_regex:
  "(reachable st \<and> rx searchString ''i'' = Some m \<longrightarrow>
      (\<exists>ds. findMatchingUsers rx st searchString = Fulfilled (Some ds)
            \<and> length ds \<le> 10
            \<and> map doc_user ds = take 10 (filter (name_matches m) (users st))))
   \<and> findMatchingUsers regex_lite directory ''a.c''
        = Fulfilled (Some (map (populate directory True) [person 1 ''abc'', person 4 ''axc'']))
   \<and> findMatchingUsers regex_lite directory ''bob''
        = Fulfilled (Some (map (populate directory True)
            [person 2 ''bob'', person 5 ''bobby'', person 7 ''Bob123'']))"
proof -
  have general: "\<exists>ds. findMatchingUsers rx st searchString = Fulfilled (Some ds)
            \<and> length ds \<le> 10
            \<and> map doc_user ds = take 10 (filter (name_matches m) (users st))"
    if "reachable st" and "rx searchString ''i'' = Some m"
    using that by (simp add: findMatchingUsers_def find_regex_def populate_def comp_def)
  have dot: "regex_lite ''a.c'' ''i'' = Some (search True (Cat (Lit CHR ''a'') (Cat Dot (Cat (Lit CHR ''c'') Emp))))"
    by (simp add: regex_defs)
  have bob: "regex_lite ''bob'' ''i'' = Some (search True (Cat (Lit CHR ''b'') (Cat (Lit CHR ''o'') (Cat (Lit CHR ''b'') Emp))))"
    by (simp add: regex_defs)
  have ex1: "findMatchingUsers regex_lite directory ''a.c''
        = Fulfilled (Some (map (populate directory True) [person 1 ''abc'', person 4 ''axc'']))"
    by (simp add: findMatchingUsers_def find_regex_def dot name_matches_def directory_def person_def lower_def)
  have ex2: "findMatchingUsers regex_lite directory ''bob''
        = Fulfilled (Some (map (populate directory True)
            [person 2 ''bob'', person 5 ''bobby'', person 7 ''Bob123'']))"
    by (simp add: findMatchingUsers_def find_regex_def bob name_matches_def directory_def person_def lower_def)
  show ?thesis using general ex1 ex2 by blast
qed

theorem findMatchingUsers_regex_witness:
  "reachable crowd
   \<and> regex_lite ''B'' ''i'' = Some (search True (Cat (Lit CHR ''B'') Emp))
   \<and> length (filter (name_matches (search True (Cat (Lit CHR ''B'') Emp))) (users crowd)) = 12
   \<and> (\<exists>ds. findMatchingUsers regex_lite crowd ''B'' = Fulfilled (Some ds)
            \<and> length ds \<le> 10
            \<and> map doc_user ds =
                 take 10 (filter (name_matches (search True (Cat (Lit CHR ''B'') Emp))) (users crowd)))"
proof -
  have r: "reachable crowd" by (simp add: crowd_def)
  have p: "regex_lite ''B'' ''i'' = Some (search True (Cat (Lit CHR ''B'') Emp))"
    by (simp add: regex_defs)
  have n: "length (filter (name_matches (search True (Cat (Lit CHR ''B'') Emp))) (users crowd)) = 12"
    by (simp add: crowd_def name_matches_def person_def lower_def)
  show ?thesis
    using r p n findMatchingUsers_regex [of crowd regex_lite "''B''" "search True (Cat (Lit CHR ''B'') Emp)"]
    by blast
qed

subsection \<open>Saving a changed document\<close>

lemma findOne_found:
  assumes "findOne st uname = Fulfilled (Some u)"
  shows "reachable st" and "find (\<lambda>x. username x = Some uname) (users st) = Some u"
    and "u \<in> set (users st)" and "username u = Some uname"
proof -
  show r: "reachable st" using assms by (auto simp: findOne_def split: if_splits)
  show f: "find (\<lambda>x. username x = Some uname) (users st) = Some u"
    using assms by (auto simp: findOne_def split: if_splits)
  from f show "u \<in> set (users st)" by (auto simp: find_Some_iff)
  from f show "username u = Some uname" by (auto simp: find_Some_iff)
qed

lemma find_replace_same:
  assumes "find P xs = Some u" and "distinct (map user_id xs)"
    and "user_id u' = user_id u" and "P u'"
  shows "find P (map (replace_user u') xs) = Some u'"
  using assms(1,2)
proof (induction xs)
  case Nil
  then show ?case by simp
next
  case (Cons x xs)
  show ?case
  proof (cases "P x")
    case True
    with Cons.prems have "x = u" by simp
    with assms(3,4) show ?thesis by (simp add: replace_user_def)
  next
    case False
    with Cons.prems have tail: "find P xs = Some u" by simp
    then have "u \<in> set xs" by (auto simp: find_Some_iff)
    with Cons.prems(2) have "user_id x \<noteq> user_id u" by auto
    with False assms(3) have "replace_user u' x = x" by (simp add: replace_user_def)
    with False tail Cons show ?thesis by simp
  qed
qed

lemma find_replace_new:
  assumes "u \<in> set xs" and "find P xs = None" and "user_id u' = user_id u" and "P u'"
  shows "find P (map (replace_user u') xs) = Some u'"
  using assms(1,2)
proof (induction xs)
  case Nil
  then show ?case by simp
next
  case (Cons x xs)
  show ?case
  proof (cases "user_id x = user_id u")
    case True
    with assms(3,4) show ?thesis by (simp add: replace_user_def)
  next
    case False
    with Cons.prems have "u \<in> set xs" by auto
    moreover from Cons.prems have "\<not> P x" and "find P xs = None" by (auto split: if_splits)
    moreover from False assms(3) have "replace_user u' x = x" by (simp add: replace_user_def)
    ultimately show ?thesis using Cons.IH by simp
  qed
qed

lemma find_replace_old:
  assumes "\<And>x. x \<in> set xs \<Longrightarrow> P x \<Longrightarrow> user_id x = user_id u'" and "\<not> P u'"
  shows "find P (map (replace_user u') xs) = None"
  using assms by (auto simp: find_None_iff replace_user_def)

lemma unique_name_owner:
  assumes "unique_usernames st" and "u \<in> set (users st)" and "x \<in> set (users st)"
    and "username x = username u"
  shows "x = u"
proof -
  from assms(1) have "inj_on username (set (users st))"
    by (simp add: unique_usernames_def distinct_map)
  with assms(2-4) show ?thesis by (auto dest: inj_onD)
qed

lemma save_existing:
  assumes "reachable st" and "u \<in> set (users st)" and "user_id (doc_user d) = user_id u"
    and "valid_user (doc_user d)" and "username_taken st (doc_user d) = False"
    and "castErrors d = []" and "isNew d = False"
  shows "save st d =
    (Fulfilled d,
     st\<lparr>save_calls := Suc (save_calls st), users := map (replace_user (doc_user d)) (users st)\<rparr>)"
proof -
  from assms(2,3) have "list_ex (\<lambda>x. user_id x = user_id (doc_user d)) (users st)"
    by (auto simp: list_ex_iff)
  with assms show ?thesis by (simp add: save_def Let_def)
qed

lemma getUser_reachable:
  "reachable st \<Longrightarrow>
   getUser st uname =
     Fulfilled (map_option (populate st True) (find (\<lambda>x. username x = Some uname) (users st)))"
  by (simp add: getUser_def findOne_populate_def findOne_def)

subsection \<open>Reassigning the lookup key\<close>

text \<open>
  C10. Nothing protects the username: on a well-formed store, for an existing user
  \<open>old\<close> and a non-empty name \<open>new\<close> that no stored user has,
  \<open>updateUser old "username" new\<close> succeeds; afterwards \<open>getUser new\<close> returns the
  record, under its new name, and \<open>getUser old\<close> answers \<open>null\<close>.
\<close>

theorem username_reassignable:
  assumes "wf_store st" and "findOne st old = Fulfilled (Some u)" and "new \<noteq> []"
    and "findOne st new = Fulfilled None"
  shows "\<exists>d st'. updateUser st old ''username'' (VStr new) = (Fulfilled (Some d), st')
          \<and> doc_user d = u\<lparr>username := Some new\<rparr>
          \<and> getUser st' new = Fulfilled (Some (populate st' True (u\<lparr>username := Some new\<rparr>)))
          \<and> getUser st' old = Fulfilled None"
proof -
  let ?u' = "u\<lparr>username := Some new\<rparr>"
  let ?d = "assign (populate st False u) ''username'' (VStr new)"
  let ?st' = "st\<lparr>save_calls := Suc (save_calls st), users := map (replace_user ?u') (users st)\<rparr>"
  note found = findOne_found [OF assms(2)]
  have fresh: "find (\<lambda>x. username x = Some new) (users st) = None"
    using assms(4) found(1) by (simp add: findOne_def)
  have uniq: "unique_usernames st" and valid: "valid_user u"
    using assms(1) found(3) by (auto simp: wf_store_def list_all_iff)
  have d: "doc_user ?d = ?u'" "castErrors ?d = []" "isNew ?d = False" "props ?d = []"
    by (simp_all add: assign_def is_path_def string_paths_def set_path_def put_string_def
        populate_def)
  have v: "valid_user ?u'"
    using valid assms(3) by (simp add: valid_user_def required_def)
  have free: "username_taken st ?u' = False"
    using fresh by (auto simp: username_taken_def list_ex_iff find_None_iff)
  have saved: "save st ?d = (Fulfilled ?d, ?st')"
    using save_existing [of st u ?d] found(1,3) d v free by simp
  have upd: "updateUser st old ''username'' (VStr new) = (Fulfilled (Some ?d), ?st')"
    using found(1,2) saved d(4)
    by (simp add: updateUser_def findOne_populate_def findOne_def set_prop_def call_save_def)
  have r': "reachable ?st'" using found(1) by simp
  have at_new: "find (\<lambda>x. username x = Some new) (users ?st') = Some ?u'"
    using find_replace_new [of u "users st" "\<lambda>x. username x = Some new" ?u'] found(3) fresh
    by simp
  have differ: "new \<noteq> old" using fresh found(2) by auto
  have owner: "user_id x = user_id ?u'" if "x \<in> set (users st)" and "username x = Some old" for x
    using unique_name_owner [OF uniq found(3) that(1)] that(2) found(4) by simp
  have at_old: "find (\<lambda>x. username x = Some old) (users ?st') = None"
    using find_replace_old [of "users st" "\<lambda>x. username x = Some old" ?u'] owner differ
    by simp
  have g_new: "getUser ?st' new = Fulfilled (Some (populate ?st' True ?u'))"
    using getUser_reachable [OF r', of new] at_new by simp
  have g_old: "getUser ?st' old = Fulfilled None"
    using getUser_reachable [OF r', of old] at_old by simp
  show ?thesis using upd d(1) g_new g_old by blast
qed

theorem username_reassignable_witness:
  "wf_store demo \<and> findOne demo ''alice'' = Fulfilled (Some alice) \<and> ''carol'' \<noteq> []
   \<and> findOne demo ''carol'' = Fulfilled None
   \<and> (\<exists>d st'. updateUser demo ''alice'' ''username'' (VStr ''carol'') = (Fulfilled (Some d), st')
          \<and> doc_user d = alice\<lparr>username := Some ''carol''\<rparr>
          \<and> getUser st' ''carol''
               = Fulfilled (Some (populate st' True (alice\<lparr>username := Some ''carol''\<rparr>)))
          \<and> getUser st' ''alice'' = Fulfilled None)
   \<and> users (snd (updateUser demo ''alice'' ''username'' (VStr ''carol'')))
        = [alice\<lparr>username := Some ''carol''\<rparr>, bob]"
proof -
  have w: "wf_store demo"
    by (simp add: wf_store_def unique_usernames_def valid_user_def required_def example_defs)
  have a: "findOne demo ''alice'' = Fulfilled (Some alice)"
    by (simp add: findOne_def example_defs)
  have n: "''carol'' \<noteq> []" by simp
  have c: "findOne demo ''carol'' = Fulfilled None"
    by (simp add: findOne_def example_defs)
  have s: "users (snd (updateUser demo ''alice'' ''username'' (VStr ''carol'')))
        = [alice\<lparr>username := Some ''carol''\<rparr>, bob]"
    by (simp add: updateUser_def store_defs example_defs Let_def)
  show ?thesis using w a n c s username_reassignable [OF w a n c] by blast
qed

subsection \<open>Reading back an update\<close>

lemma assign_keeps_key:
  assumes "keeps_key uname field v" and "username u = Some uname" and "valid_user u"
  shows "user_id (doc_user (assign (populate st False u) field v)) = user_id u"
    and "username (doc_user (assign (populate st False u) field v)) = Some uname"
    and "valid_user (doc_user (assign (populate st False u) field v))"
    and "castErrors (assign (populate st False u) field v) = []"
    and "isNew (assign (populate st False u) field v) = False"
    and "props (assign (populate st False u) field v) = []"
    and "read_prop (populate st' True (doc_user (assign (populate st False u) field v))) field
           = Some v"
  using assms
  by (auto simp: keeps_key_def assign_def is_path_def string_paths_def set_path_def
      put_string_def populate_def valid_user_def required_def read_prop_def
      split: jsval.splits)

text \<open>
  C7, as amended. On a well-formed store, for an existing username and an update that
  leaves the lookup key as it is (a non-empty string for \<open>firstname\<close>, \<open>lastname\<close> or
  \<open>email\<close>, the user's own name for \<open>username\<close>, a reference list for
  \<open>participatingIn\<close>), \<open>updateUser\<close> succeeds and \<open>getUser\<close> on the same username then
  returns a record whose named field is the new value. And \<open>updateUser\<close> on a username
  that no stored user has returns \<open>null\<close> and leaves the store as it was.
\<close>

theorem updateUser_then_getUser:
  "(wf_store st \<and> findOne st uname = Fulfilled (Some u) \<and> keeps_key uname field v \<longrightarrow>
      (\<exists>d st' d'. updateUser st uname field v = (Fulfilled (Some d), st')
          \<and> getUser st' uname = Fulfilled (Some d') \<and> read_prop d' field = Some v))
   \<and> (findOne st uname = Fulfilled None \<longrightarrow> updateUser st uname field v = (Fulfilled None, st))"
proof -
  have changed: "\<exists>d st' d'. updateUser st uname field v = (Fulfilled (Some d), st')
          \<and> getUser st' uname = Fulfilled (Some d') \<and> read_prop d' field = Some v"
    if w: "wf_store st" and f: "findOne st uname = Fulfilled (Some u)"
      and k: "keeps_key uname field v"
  proof -
    let ?d = "assign (populate st False u) field v"
    let ?u' = "doc_user ?d"
    let ?st' = "st\<lparr>save_calls := Suc (save_calls st), users := map (replace_user ?u') (users st)\<rparr>"
    note found = findOne_found [OF f]
    have uniq: "unique_usernames st" and ids: "distinct (map user_id (users st))"
      and valid: "valid_user u"
      using w found(3) by (auto simp: wf_store_def list_all_iff)
    note d = assign_keeps_key [OF k found(4) valid]
    have same_id: "user_id x = user_id ?u'"
      if "x \<in> set (users st)" and "username x = username ?u'" for x
      using unique_name_owner [OF uniq found(3) that(1)] that(2) d(1,2) found(4) by simp
    then have free: "username_taken st ?u' = False"
      by (auto simp: username_taken_def list_ex_iff)
    have saved: "save st ?d = (Fulfilled ?d, ?st')"
      using save_existing [of st u ?d] found(1,3) d(1,3,4,5) free by simp
    have upd: "updateUser st uname field v = (Fulfilled (Some ?d), ?st')"
      using found(1,2) saved d(6)
      by (simp add: updateUser_def findOne_populate_def findOne_def set_prop_def call_save_def)
    have r': "reachable ?st'" using found(1) by simp
    have at: "find (\<lambda>x. username x = Some uname) (users ?st') = Some ?u'"
      using find_replace_same [of "\<lambda>x. username x = Some uname" "users st" u ?u']
        found(2) ids d(1,2) by simp
    have got: "getUser ?st' uname = Fulfilled (Some (populate ?st' True ?u'))"
      using getUser_reachable [OF r', of uname] at by simp
    have rd: "read_prop (populate ?st' True ?u') field = Some v"
      by (rule d(7))
    show ?thesis using upd got rd by blast
  qed
  have absent: "updateUser st uname field v = (Fulfilled None, st)"
    if "findOne st uname = Fulfilled None"
    using that by (simp add: updateUser_def findOne_populate_def set_prop_def)
  show ?thesis using changed absent by blast
qed

theorem updateUser_then_getUser_witness:
  "wf_store demo \<and> findOne demo ''alice'' = Fulfilled (Some alice)
   \<and> keeps_key ''alice'' ''email'' (VStr ''al@y.org'')
   \<and> (\<exists>d st' d'. updateUser demo ''alice'' ''email'' (VStr ''al@y.org'') = (Fulfilled (Some d), st')
          \<and> getUser st' ''alice'' = Fulfilled (Some d')
          \<and> read_prop d' ''email'' = Some (VStr ''al@y.org''))
   \<and> findOne demo ''carol'' = Fulfilled None
   \<and> updateUser demo ''carol'' ''email'' (VStr ''c@y.org'') = (Fulfilled None, demo)"
proof -
  have w: "wf_store demo"
    by (simp add: wf_store_def unique_usernames_def valid_user_def required_def example_defs)
  have a: "findOne demo ''alice'' = Fulfilled (Some alice)"
    by (simp add: findOne_def example_defs)
  have k: "keeps_key ''alice'' ''email'' (VStr ''al@y.org'')"
    by (simp add: keeps_key_def)
  have c: "findOne demo ''carol'' = Fulfilled None"
    by (simp add: findOne_def example_defs)
  show ?thesis
    using w a k c updateUser_then_getUser [of demo "''alice''" alice "''email''" "VStr ''al@y.org''"]
      updateUser_then_getUser [of demo "''carol''" alice "''email''" "VStr ''c@y.org''"]
    by blast
qed

text \<open>
  The claim as stated fails for the schema field \<open>username\<close>: once \<open>alice\<close> has been
  renamed, \<open>getUser\<close> on the same username finds no record at all.
\<close>

theorem updateUser_username_moves_record:
  "findOne demo ''alice'' = Fulfilled (Some alice)
   \<and> is_path ''username''
   \<and> fst (updateUser demo ''alice'' ''username'' (VStr ''carol''))
       = Fulfilled (Some ((populate demo False alice)\<lparr>doc_user := alice\<lparr>username := Some ''carol''\<rparr>\<rparr>))
   \<and> getUser (snd (updateUser demo ''alice'' ''username'' (VStr ''carol''))) ''alice''
       = Fulfilled None"
  by (simp add: updateUser_def getUser_def store_defs example_defs Let_def)

subsection \<open>Several updates at once\<close>

lemma assign_all_Some:
  "assign_all (Some d) updates = Fulfilled (Some (apply_updates d updates))"
  by (induction updates arbitrary: d) (simp_all add: apply_updates_def set_prop_def)

lemma typed_update_is_path: "typed_update (field, v) \<Longrightarrow> is_path field"
  by (auto simp: typed_update_def is_path_def split: jsval.splits)

lemma read_prop_assign_same:
  "typed_update (field, v) \<Longrightarrow> read_prop (assign d field v) field = Some v"
  by (auto simp: typed_update_def read_prop_def assign_def is_path_def string_paths_def
      set_path_def put_string_def split: jsval.splits)

lemma read_prop_assign_other:
  "field \<noteq> g \<Longrightarrow> read_prop (assign d g v) field = read_prop d field"
  by (auto simp: read_prop_def assign_def is_path_def string_paths_def
      set_path_def put_string_def AList.update_conv' split: jsval.splits)

lemma later_wins:
  "list_all typed_update updates \<Longrightarrow> map_of (rev updates) field = Some v \<Longrightarrow>
   read_prop (apply_updates d updates) field = Some v"
proof (induction updates rule: rev_induct)
  case Nil
  then show ?case by simp
next
  case (snoc e updates)
  from snoc.prems(1) have typed: "typed_update e" and rest: "list_all typed_update updates"
    by simp_all
  show ?case
  proof (cases "fst e = field")
    case True
    with snoc.prems(2) have "e = (field, v)" by (cases e) simp
    with typed show ?thesis
      by (simp add: apply_updates_def read_prop_assign_same)
  next
    case False
    with snoc.prems(2) have "map_of (rev updates) field = Some v" by (cases e) simp
    with snoc.IH rest have "read_prop (apply_updates d updates) field = Some v"
      by simp
    with False show ?thesis
      by (simp add: apply_updates_def read_prop_assign_other)
  qed
qed

lemma props_apply_updates:
  "list_all typed_update updates \<Longrightarrow> props (apply_updates d updates) = props d"
proof (induction updates arbitrary: d)
  case Nil
  then show ?case by (simp add: apply_updates_def)
next
  case (Cons e updates)
  from Cons.prems have "is_path (fst e)"
    using typed_update_is_path [of "fst e" "snd e"] by simp
  then have "props (assign d (fst e) (snd e)) = props d"
    by (simp add: assign_def set_path_def split: jsval.splits)
  with Cons show ?case by (simp add: apply_updates_def)
qed

lemma isNew_apply_updates:
  "list_all typed_update updates \<Longrightarrow> isNew (apply_updates d updates) = isNew d"
proof (induction updates arbitrary: d)
  case Nil
  then show ?case by (simp add: apply_updates_def)
next
  case (Cons e updates)
  have "isNew (assign d (fst e) (snd e)) = isNew d"
    by (auto simp: assign_def set_path_def split: jsval.splits)
  with Cons show ?case by (simp add: apply_updates_def)
qed

lemma save_counts: "save_calls (snd (save st d)) = Suc (save_calls st)"
  by (simp add: save_def Let_def)

lemma save_returns_document:
  "isNew d = False \<Longrightarrow> fst (save st d) = Fulfilled d' \<Longrightarrow>
   d' = d \<and> users (snd (save st d)) = map (replace_user (doc_user d)) (users st)"
  by (auto simp: save_def Let_def split: if_splits)

text \<open>
  C6, as amended. For an existing user and a list of updates each of which gives a
  declared path a value of the path's type, \<open>multiUpdateUser\<close> runs the assignments in
  order on the loaded document and then calls \<open>save\<close> exactly once, on the result. In
  that result every field holds the value of the last update that names it, so of two
  updates of \<open>email\<close> the later one wins. A record that is returned is that result, and
  the store then holds it in the user's place.
\<close>

theorem multiUpdateUser_later_wins:
  assumes "findOne st uname = Fulfilled (Some u)" and "list_all typed_update updates"
  shows "\<exists>d. assign_all (Some (populate st False u)) updates = Fulfilled (Some d)
          \<and> (\<forall>field v. map_of (rev updates) field = Some v \<longrightarrow> read_prop d field = Some v)
          \<and> multiUpdateUser st uname updates =
              (case save st d of
                 (Fulfilled d', st') \<Rightarrow> (Fulfilled (Some d'), st')
               | (Rejected e, st') \<Rightarrow> (Fulfilled None, st'))
          \<and> (\<forall>d'. fst (multiUpdateUser st uname updates) = Fulfilled (Some d') \<longrightarrow>
                d' = d
                \<and> users (snd (multiUpdateUser st uname updates))
                    = map (replace_user (doc_user d)) (users st))
          \<and> save_calls (snd (multiUpdateUser st uname updates)) = Suc (save_calls st)"
proof -
  let ?loaded = "populate st False u"
  let ?d = "apply_updates ?loaded updates"
  note found = findOne_found [OF assms(1)]
  have loop: "assign_all (Some ?loaded) updates = Fulfilled (Some ?d)"
    by (rule assign_all_Some)
  have wins: "\<forall>field v. map_of (rev updates) field = Some v \<longrightarrow> read_prop ?d field = Some v"
    using later_wins [OF assms(2)] by blast
  have unshadowed: "map_of (props ?d) ''save'' = None"
    using props_apply_updates [OF assms(2), of ?loaded] by (simp add: populate_def)
  have run: "multiUpdateUser st uname updates =
              (case save st ?d of
                 (Fulfilled d', st') \<Rightarrow> (Fulfilled (Some d'), st')
               | (Rejected e, st') \<Rightarrow> (Fulfilled None, st'))"
    using found(1,2) loop unshadowed
    by (simp add: multiUpdateUser_def findOne_populate_def findOne_def call_save_def)
  have old: "isNew ?d = False"
    using isNew_apply_updates [OF assms(2), of ?loaded] by (simp add: populate_def)
  have same: "\<forall>d'. fst (multiUpdateUser st uname updates) = Fulfilled (Some d') \<longrightarrow>
                d' = ?d
                \<and> users (snd (multiUpdateUser st uname updates))
                    = map (replace_user (doc_user ?d)) (users st)"
    using save_returns_document [OF old, of st] run
    by (auto split: prod.splits outcome.splits)
  have once: "save_calls (snd (multiUpdateUser st uname updates)) = Suc (save_calls st)"
    using save_counts [of st ?d] run by (auto split: prod.splits outcome.splits)
  show ?thesis using loop wins run same once by blast
qed

theorem multiUpdateUser_later_wins_witness:
  "findOne demo ''alice'' = Fulfilled (Some alice)
   \<and> list_all typed_update [(''email'', VStr ''a@x.com''), (''email'', VStr ''b@x.com'')]
   \<and> map_of (rev [(''email'', VStr ''a@x.com''), (''email'', VStr ''b@x.com'')]) ''email''
       = Some (VStr ''b@x.com'')
   \<and> (\<exists>d. read_prop d ''email'' = Some (VStr ''b@x.com'')
          \<and> multiUpdateUser demo ''alice''
                [(''email'', VStr ''a@x.com''), (''email'', VStr ''b@x.com'')] =
              (case save demo d of
                 (Fulfilled d', st') \<Rightarrow> (Fulfilled (Some d'), st')
               | (Rejected e, st') \<Rightarrow> (Fulfilled None, st')))
   \<and> save_calls (snd (multiUpdateUser demo ''alice''
         [(''email'', VStr ''a@x.com''), (''email'', VStr ''b@x.com'')])) = Suc (save_calls demo)
   \<and> multiUpdateUser demo ''alice'' [(''email'', VStr ''a@x.com''), (''email'', VStr ''b@x.com'')]
       = (Fulfilled (Some ((populate demo False alice)
                       \<lparr>doc_user := alice\<lparr>email := Some ''b@x.com''\<rparr>\<rparr>)),
          demo\<lparr>users := [alice\<lparr>email := Some ''b@x.com''\<rparr>, bob], save_calls := 1\<rparr>)"
proof -
  let ?ups = "[(''email'', VStr ''a@x.com''), (''email'', VStr ''b@x.com'')]"
  have a: "findOne demo ''alice'' = Fulfilled (Some alice)"
    by (simp add: findOne_def example_defs)
  have t: "list_all typed_update ?ups"
    by (simp add: typed_update_def string_paths_def)
  have l: "map_of (rev ?ups) ''email'' = Some (VStr ''b@x.com'')" by simp
  have run: "multiUpdateUser demo ''alice'' ?ups
       = (Fulfilled (Some ((populate demo False alice)
                       \<lparr>doc_user := alice\<lparr>email := Some ''b@x.com''\<rparr>\<rparr>)),
          demo\<lparr>users := [alice\<lparr>email := Some ''b@x.com''\<rparr>, bob], save_calls := 1\<rparr>)"
    by (simp add: multiUpdateUser_def store_defs example_defs Let_def)
  from multiUpdateUser_later_wins [OF a t] l
  have e: "\<exists>d. read_prop d ''email'' = Some (VStr ''b@x.com'')
          \<and> multiUpdateUser demo ''alice'' ?ups =
              (case save demo d of
                 (Fulfilled d', st') \<Rightarrow> (Fulfilled (Some d'), st')
               | (Rejected e, st') \<Rightarrow> (Fulfilled None, st'))"
    by blast
  from multiUpdateUser_later_wins [OF a t]
  have c: "save_calls (snd (multiUpdateUser demo ''alice'' ?ups)) = Suc (save_calls demo)"
    by blast
  show ?thesis using a t l e c run by (intro conjI)
qed

text \<open>
  The claim as stated, for any list of pairs, fails. An update that names \<open>save\<close>
  replaces the method the function is about to call: the call throws, no \<open>save\<close> is
  made and the result is \<open>null\<close>. And a later update whose value cannot be cast does
  not win: the document keeps the earlier value, the one \<open>save\<close> is refused and the
  result is \<open>null\<close>, the store holding the old address still.
\<close>

theorem multiUpdateUser_unfit_updates:
  "findOne demo ''alice'' = Fulfilled (Some alice)
   \<and> multiUpdateUser demo ''alice'' [(''save'', VStr ''x'')] = (Fulfilled None, demo)
   \<and> save_calls (snd (multiUpdateUser demo ''alice'' [(''save'', VStr ''x'')])) = save_calls demo
   \<and> read_prop (apply_updates (populate demo False alice)
        [(''email'', VStr ''a@x.com''), (''email'', VRefs [10])]) ''email''
       = Some (VStr ''a@x.com'')
   \<and> multiUpdateUser demo ''alice'' [(''email'', VStr ''a@x.com''), (''email'', VRefs [10])]
       = (Fulfilled None, demo\<lparr>save_calls := 1\<rparr>)"
  by (simp add: multiUpdateUser_def apply_updates_def read_prop_def store_defs example_defs
      Let_def)

subsection \<open>Well-formedness is kept\<close>

text \<open>
  The hypotheses above ask for a well-formed store. Every function of the module that
  writes takes a well-formed store to a well-formed store, whatever its arguments and
  whatever its outcome, so the stores the module builds from an empty one all qualify.
\<close>

lemma distinct_names_replace:
  assumes "distinct (map user_id xs)" and "distinct (map username xs)"
    and "\<And>x. x \<in> set xs \<Longrightarrow> username x = username u \<Longrightarrow> user_id x = user_id u"
  shows "distinct (map username (map (replace_user u) xs))"
  using assms
proof (induction xs)
  case Nil
  then show ?case by simp
next
  case (Cons x xs)
  have tail: "distinct (map username (map (replace_user u) xs))"
    using Cons by simp
  have "username (replace_user u x) \<notin> username ` replace_user u ` set xs"
  proof
    assume "username (replace_user u x) \<in> username ` replace_user u ` set xs"
    then obtain y where y: "y \<in> set xs" "username (replace_user u y) = username (replace_user u x)"
      by auto
    from Cons.prems(1) have "user_id x \<notin> user_id ` set xs" by simp
    with y(1) have ids: "user_id y \<noteq> user_id x" by (metis imageI)
    from Cons.prems(2) have "username x \<notin> username ` set xs" by simp
    with y(1) have names: "username y \<noteq> username x" by (metis imageI)
    show False
    proof (cases "user_id x = user_id u")
      case True
      with ids y(2) have "username y = username u" by (simp add: replace_user_def)
      with Cons.prems(3) [of y] y(1) have "user_id y = user_id u" by simp
      with True ids show False by simp
    next
      case False
      show False
      proof (cases "user_id y = user_id u")
        case True
        with False y(2) have "username u = username x" by (simp add: replace_user_def)
        with Cons.prems(3) [of x] False show False by simp
      next
        case nope: False
        with False y(2) names show False by (simp add: replace_user_def)
      qed
    qed
  qed
  with tail show ?case by (simp add: image_image)
qed

lemma ids_replace:
  "map user_id (map (replace_user u) xs) = map user_id xs"
  by (induction xs) (simp_all add: replace_user_def)

lemma save_preserves_wf:
  assumes "wf_store st" and "user_id (doc_user d) < next_id st"
  shows "wf_store (snd (save st d))"
proof -
  let ?u = "doc_user d"
  let ?st1 = "st\<lparr>save_calls := Suc (save_calls st)\<rparr>"
  have counted: "wf_store ?st1"
    using assms(1) by (simp add: wf_store_def unique_usernames_def)
  have split: "snd (save st d) = ?st1
      \<or> (valid_user ?u \<and> username_taken st ?u = False
          \<and> list_ex (\<lambda>x. user_id x = user_id ?u) (users st) = False
          \<and> snd (save st d) = ?st1\<lparr>users := users st @ [?u]\<rparr>)
      \<or> (valid_user ?u \<and> username_taken st ?u = False
          \<and> snd (save st d) = ?st1\<lparr>users := map (replace_user ?u) (users st)\<rparr>)"
    by (simp add: save_def Let_def)
  then consider (rejected) "snd (save st d) = ?st1"
    | (inserted) "valid_user ?u" "username_taken st ?u = False"
        "list_ex (\<lambda>x. user_id x = user_id ?u) (users st) = False"
        "snd (save st d) = ?st1\<lparr>users := users st @ [?u]\<rparr>"
    | (updated) "valid_user ?u" "username_taken st ?u = False"
        "snd (save st d) = ?st1\<lparr>users := map (replace_user ?u) (users st)\<rparr>"
    by blast
  then show ?thesis
  proof cases
    case rejected
    with counted show ?thesis by simp
  next
    case inserted
    from inserted(2,3) have "username ?u \<notin> username ` set (users st)"
      and "user_id ?u \<notin> user_id ` set (users st)"
      by (auto simp: username_taken_def list_ex_iff)
    with assms inserted(1,4) show ?thesis
      by (simp add: wf_store_def unique_usernames_def)
  next
    case updated
    have owner: "user_id x = user_id ?u"
      if "x \<in> set (users st)" and "username x = username ?u" for x
      using updated(2) that by (auto simp: username_taken_def list_ex_iff)
    have names: "distinct (map username (map (replace_user ?u) (users st)))"
      using assms(1) owner
      by (intro distinct_names_replace) (auto simp: wf_store_def unique_usernames_def)
    have others: "list_all valid_user (map (replace_user ?u) (users st))"
      "list_all (\<lambda>x. user_id x < next_id st) (map (replace_user ?u) (users st))"
      using assms updated(1) by (auto simp: wf_store_def list_all_iff replace_user_def)
    from assms(1) have "distinct (map user_id (map (replace_user ?u) (users st)))"
      by (simp only: ids_replace) (simp add: wf_store_def)
    with names others updated(3) show ?thesis
      by (simp add: wf_store_def unique_usernames_def)
  qed
qed

lemma user_id_assign: "user_id (doc_user (assign d field v)) = user_id (doc_user d)"
  by (simp add: assign_def set_path_def put_string_def split: jsval.splits)

lemma user_id_apply_updates:
  "user_id (doc_user (apply_updates d updates)) = user_id (doc_user d)"
proof (induction updates arbitrary: d)
  case Nil
  then show ?case by (simp add: apply_updates_def)
next
  case (Cons e updates)
  from Cons [of "assign d (fst e) (snd e)"] show ?case
    by (simp add: apply_updates_def user_id_assign)
qed

lemma user_id_construct:
  "user_id (doc_user (foldl construct d obj)) = user_id (doc_user d)"
proof (induction obj arbitrary: d)
  case Nil
  then show ?case by simp
next
  case (Cons kv obj)
  have "user_id (doc_user (construct d kv)) = user_id (doc_user d)"
    by (simp add: construct_def set_path_def put_string_def split: jsval.splits)
  with Cons [of "construct d kv"] show ?case by simp
qed

lemma remove_first_subset: "set (remove_first P xs) \<subseteq> set xs"
  by (induction xs) auto

lemma remove_first_distinct:
  "distinct (map f xs) \<Longrightarrow> distinct (map f (remove_first P xs))"
proof (induction xs)
  case Nil
  then show ?case by simp
next
  case (Cons x xs)
  have "f ` set (remove_first P xs) \<subseteq> f ` set xs"
    using remove_first_subset [of P xs] by blast
  with Cons show ?case by auto
qed

lemma deleteOne_preserves_wf:
  assumes "wf_store st"
  shows "wf_store (snd (deleteOne st uname))"
proof -
  let ?xs = "remove_first (\<lambda>u. username u = Some uname) (users st)"
  have sub: "set ?xs \<subseteq> set (users st)" by (rule remove_first_subset)
  have "distinct (map username ?xs)" and "distinct (map user_id ?xs)"
    using assms by (simp_all add: wf_store_def unique_usernames_def remove_first_distinct)
  moreover have "list_all valid_user ?xs" and "list_all (\<lambda>u. user_id u < next_id st) ?xs"
    using assms sub by (auto simp: wf_store_def list_all_iff)
  ultimately show ?thesis
    using assms by (simp add: deleteOne_def wf_store_def unique_usernames_def)
qed

lemma call_save_preserves_wf:
  assumes "wf_store st" and "user_id (doc_user d) < next_id st"
  shows "wf_store (snd (call_save st (Some d)))"
  using assms save_preserves_wf [OF assms]
  by (simp add: call_save_def split: option.splits)

lemma loaded_id_known:
  assumes "wf_store st" and "findOne st uname = Fulfilled (Some u)"
  shows "user_id (doc_user (populate st strip u)) < next_id st"
  using assms findOne_found(3) [OF assms(2)]
  by (auto simp: wf_store_def list_all_iff populate_def)

theorem wf_store_preserved:
  assumes "wf_store st"
  shows "wf_store (snd (addUser st userObj))"
    and "wf_store (snd (addBasicUser st fname lname uname mail))"
    and "wf_store (snd (updateUser st uname field v))"
    and "wf_store (snd (multiUpdateUser st uname updates))"
    and "wf_store (snd (deleteUser st uname))"
proof -
  have fresh: "wf_store (snd (save (snd (new_User st obj)) (fst (new_User st obj))))" for obj
  proof -
    have "wf_store (snd (new_User st obj))"
      using assms by (auto simp: new_User_def wf_store_def unique_usernames_def list_all_iff)
    moreover have "user_id (doc_user (fst (new_User st obj))) < next_id (snd (new_User st obj))"
      by (simp add: new_User_def user_id_construct blank_user_def)
    ultimately show ?thesis by (rule save_preserves_wf)
  qed
  show "wf_store (snd (addUser st userObj))"
    using fresh [of userObj]
    by (auto simp: addUser_def split: prod.splits outcome.splits)
  show "wf_store (snd (addBasicUser st fname lname uname mail))"
    using fresh [of "[(''firstname'', VStr fname), (''lastname'', VStr lname),
                     (''username'', VStr uname), (''email'', VStr mail)]"]
    by (auto simp: addBasicUser_def split: prod.splits outcome.splits)
  show "wf_store (snd (updateUser st uname field v))"
  proof (cases "findOne st uname")
    case (Fulfilled r)
    show ?thesis
    proof (cases r)
      case None
      with Fulfilled assms show ?thesis
        by (simp add: updateUser_def findOne_populate_def set_prop_def)
    next
      case (Some u)
      with Fulfilled have f: "findOne st uname = Fulfilled (Some u)" by simp
      have "user_id (doc_user (assign (populate st False u) field v)) < next_id st"
        using loaded_id_known [OF assms f] by (simp add: user_id_assign)
      from call_save_preserves_wf [OF assms this] f show ?thesis
        by (auto simp: updateUser_def findOne_populate_def set_prop_def
            split: prod.splits outcome.splits)
    qed
  next
    case (Rejected e)
    with assms show ?thesis by (simp add: updateUser_def findOne_populate_def)
  qed
  show "wf_store (snd (multiUpdateUser st uname updates))"
  proof (cases "findOne st uname")
    case (Fulfilled r)
    show ?thesis
    proof (cases r)
      case None
      with Fulfilled assms show ?thesis
        by (cases updates)
          (simp_all add: multiUpdateUser_def findOne_populate_def set_prop_def call_save_def)
    next
      case (Some u)
      with Fulfilled have f: "findOne st uname = Fulfilled (Some u)" by simp
      have "user_id (doc_user (apply_updates (populate st False u) updates)) < next_id st"
        using loaded_id_known [OF assms f] by (simp add: user_id_apply_updates)
      from call_save_preserves_wf [OF assms this] f show ?thesis
        by (auto simp: multiUpdateUser_def findOne_populate_def assign_all_Some
            split: prod.splits outcome.splits)
    qed
  next
    case (Rejected e)
    with assms show ?thesis by (simp add: multiUpdateUser_def findOne_populate_def)
  qed
  show "wf_store (snd (deleteUser st uname))"
    using deleteOne_preserves_wf [OF assms, of uname]
    by (auto simp: deleteUser_def split: prod.splits outcome.splits)
qed

end
